theory Spec2Isabelle
  imports Main "HOL-Library.Multiset"
begin

section \<open>The generation orchestrator of \<^verbatim>\<open>inference.py\<close>\<close>

text \<open>
  The development embeds the function \<^verbatim>\<open>inference\<close>: the resumable loop over
  (task, sample-index) pairs and its three generation strategies. The static analyser
  (\<^verbatim>\<open>get_todo_methods\<close>, \<^verbatim>\<open>retain_todo_method\<close>, \<^verbatim>\<open>replace_method\<close>), the code
  extractor and the model behind \<^verbatim>\<open>query\<close> are collaborators that the function only
  calls; they are parameters of the model, and every one of them may raise.
\<close>

subsection \<open>Data\<close>

text \<open>The options fixed by the argument parser (\<^verbatim>\<open>choices=[...]\<close>).\<close>

datatype mode = Holistic | Independent | Incremental

datatype incremental_mode = Seq | Rev | Rand

record args =
  mode :: mode
  incremental_mode :: incremental_mode
  num_sample :: int

text \<open>
  Exceptions. The orchestrator raises none of its own and has no handler; the names are
  those of the collaborators' failures. \<open>IndexError\<close> is what an in-place swap at an
  index outside the list raises.
\<close>

datatype error = ParseError | StubNotFoundError | ExtractionError | ModelClientError | IndexError

text \<open>A benchmark record, read with the keys \<^verbatim>\<open>task_id\<close>, \<^verbatim>\<open>code\<close>, \<^verbatim>\<open>code_context\<close>, \<^verbatim>\<open>target\<close>.\<close>

record task =
  task_id :: string
  code :: string
  code_context :: string
  target :: string

text \<open>A stub descriptor; the orchestrator reads its keys \<^verbatim>\<open>name\<close> and \<^verbatim>\<open>seq\<close> only.\<close>

record todo_method =
  name :: string
  seq :: int

text \<open>One entry of \<^verbatim>\<open>mediate\<close>: \<^verbatim>\<open>dict(name=, seq=, prompt=, completion=)\<close>.\<close>

record mediate_entry =
  m_name :: string
  m_seq :: int
  m_prompt :: string
  m_completion :: string

text \<open>
  A Sample. The holistic branch builds a dictionary with the key \<^verbatim>\<open>prompt\<close> and
  without \<^verbatim>\<open>mediate\<close>, the other two branches one with \<^verbatim>\<open>mediate\<close> and without
  \<^verbatim>\<open>prompt\<close>: an absent key is \<open>None\<close>.
\<close>

record sample =
  s_task_id :: string
  s_target :: string
  s_prompt :: "string option"
  s_completion :: string
  s_mediate :: "mediate_entry list option"

text \<open>
  The calls the orchestrator makes, in the order it makes them. \<open>Next_pair\<close> is the
  outer iterator handing out the next (task, sample-index) pair; \<open>Answer\<close> is a model
  call returning its \<^verbatim>\<open>(prompt, outputs)\<close>; every other event is logged when the call
  is made, whether it then returns or raises.
\<close>

datatype event =
    Next_pair task nat
  | Locate string
  | Isolate string string int
  | Query string string
  | Answer string string
  | Extract string
  | Splice string string string int
  | Write "sample list"

text \<open>
  What lies outside the process: the task file, the output file (\<open>None\<close> while it does
  not exist), the state of the model backend and of the global random generator, and
  the log of calls.
\<close>

record ('w, 'g) world =
  data_file :: "task list"
  output_file :: "sample list option"
  model :: 'w
  rng :: 'g
  trace :: "event list"

text \<open>
  The collaborators. The static analyser and the extractor are functions of their
  arguments; \<open>query\<close> is the closure of lines 29-64, reduced to what the loop sees of
  it: it takes the backend's state and returns \<^verbatim>\<open>(prompt, outputs)\<close> or raises;
  \<open>randbelow\<close> is the draw of the generator behind \<^verbatim>\<open>random.shuffle\<close>.
\<close>

record ('w, 'g) env =
  get_todo_methods :: "string \<Rightarrow> error + todo_method list"
  retain_todo_method :: "string \<Rightarrow> string \<Rightarrow> int \<Rightarrow> error + string"
  replace_method :: "string \<Rightarrow> string \<Rightarrow> string \<Rightarrow> int \<Rightarrow> error + string"
  extract_code :: "string \<Rightarrow> error + string"
  query :: "'w \<Rightarrow> string \<Rightarrow> string \<Rightarrow> (error + string \<times> string) \<times> 'w"
  randbelow :: "'g \<Rightarrow> nat \<Rightarrow> nat \<times> 'g"

subsection \<open>Operations\<close>

definition emit :: "event \<Rightarrow> ('w, 'g) world \<Rightarrow> ('w, 'g) world" where
  "emit e w = w\<lparr>trace := trace w @ [e]\<rparr>"

text \<open>
  Modelled from the spec: \<^verbatim>\<open>write_jsonl\<close> and \<^verbatim>\<open>stream_jsonl\<close> of \<^verbatim>\<open>app.util.io\<close> are
  not among the sources. Writing replaces the whole content of the output file by
  the list given; reading returns the list last written.
\<close>

definition write_jsonl :: "sample list \<Rightarrow> ('w, 'g) world \<Rightarrow> ('w, 'g) world" where
  "write_jsonl samples w = (emit (Write samples) w)\<lparr>output_file := Some samples\<rparr>"

text \<open>Line 67: \<^verbatim>\<open>list(stream_jsonl(args.output)) if os.path.exists(args.output) else []\<close>.\<close>

definition load_samples :: "('w, 'g) world \<Rightarrow> sample list" where
  "load_samples w = (case output_file w of None \<Rightarrow> [] | Some xs \<Rightarrow> xs)"

text \<open>One call of \<^verbatim>\<open>query(code, code_context)\<close>.\<close>

definition call_query ::
  "('w, 'g) env \<Rightarrow> string \<Rightarrow> string \<Rightarrow> ('w, 'g) world \<Rightarrow> (error + string \<times> string) \<times> ('w, 'g) world" where
  "call_query env c ctx w =
     (let w1 = emit (Query c ctx) w in
      case query env (model w1) c ctx of
        (Inl e, m') \<Rightarrow> (Inl e, w1\<lparr>model := m'\<rparr>)
      | (Inr (prompt, outputs), m') \<Rightarrow>
          (Inr (prompt, outputs), emit (Answer prompt outputs) (w1\<lparr>model := m'\<rparr>)))"

text \<open>
  \<^verbatim>\<open>random.shuffle(x)\<close> of the standard library:
  \<^verbatim>\<open>for i in reversed(range(1, len(x))): j = randbelow(i + 1); x[i], x[j] = x[j], x[i]\<close>.
  \<open>shuffle_loop rb i xs g\<close> runs the iterations \<open>i, i - 1, ..., 1\<close> on the list object
  whose content is \<open>xs\<close> and returns its content afterwards.
\<close>

fun shuffle_loop ::
  "('g \<Rightarrow> nat \<Rightarrow> nat \<times> 'g) \<Rightarrow> nat \<Rightarrow> 'a list \<Rightarrow> 'g \<Rightarrow> (error + 'a list) \<times> 'g" where
  "shuffle_loop rb 0 xs g = (Inr xs, g)"
| "shuffle_loop rb (Suc i) xs g =
     (case rb g (Suc (Suc i)) of (j, g') \<Rightarrow>
        if j < length xs \<and> Suc i < length xs
        then shuffle_loop rb i (xs[Suc i := xs ! j, j := xs ! Suc i]) g'
        else (Inl IndexError, g'))"

definition shuffle ::
  "('g \<Rightarrow> nat \<Rightarrow> nat \<times> 'g) \<Rightarrow> 'a list \<Rightarrow> 'g \<Rightarrow> (error + 'a list) \<times> 'g" where
  "shuffle rb xs g = shuffle_loop rb (length xs - 1) xs g"

text \<open>
  Lines 108-111. The result is the content of the list object that
  \<^verbatim>\<open>get_todo_methods\<close> returned as it is after these lines, and the sequence that the
  loop below then iterates: \<^verbatim>\<open>reversed\<close> makes an iterator over the list and leaves the
  list alone, \<^verbatim>\<open>random.shuffle\<close> permutes the list itself.
\<close>

definition apply_order ::
  "('g \<Rightarrow> nat \<Rightarrow> nat \<times> 'g) \<Rightarrow> incremental_mode \<Rightarrow> 'a list \<Rightarrow> 'g
     \<Rightarrow> (error + 'a list \<times> 'a list) \<times> 'g" where
  "apply_order rb im xs g =
     (case im of
        Rev \<Rightarrow> (Inr (xs, rev xs), g)
      | Rand \<Rightarrow>
          (case shuffle rb xs g of
             (Inl e, g') \<Rightarrow> (Inl e, g')
           | (Inr ys, g') \<Rightarrow> (Inr (ys, ys), g'))
      | Seq \<Rightarrow> (Inr (xs, xs), g))"

text \<open>
  The body of the inner loop, lines 84-95 and 114-125. The two copies differ in one
  argument, the source handed to \<^verbatim>\<open>retain_todo_method\<close>: \<open>isolated\<close> is that argument.
\<close>

definition todo_step ::
  "('w, 'g) env \<Rightarrow> task \<Rightarrow> string \<Rightarrow> string \<Rightarrow> todo_method \<Rightarrow> ('w, 'g) world
     \<Rightarrow> (error + string \<times> mediate_entry) \<times> ('w, 'g) world" where
  "todo_step env t isolated result tm w =
     (let w1 = emit (Isolate isolated (name tm) (seq tm)) w in
      case retain_todo_method env isolated (name tm) (seq tm) of
        Inl e \<Rightarrow> (Inl e, w1)
      | Inr source \<Rightarrow>
          (case call_query env source (code_context t) w1 of
             (Inl e, w2) \<Rightarrow> (Inl e, w2)
           | (Inr (prompt, outputs), w2) \<Rightarrow>
               (let w3 = emit (Extract outputs) w2 in
                case extract_code env outputs of
                  Inl e \<Rightarrow> (Inl e, w3)
                | Inr generated \<Rightarrow>
                    (let w4 = emit (Splice result generated (name tm) (seq tm)) w3 in
                     case replace_method env result generated (name tm) (seq tm) of
                       Inl e \<Rightarrow> (Inl e, w4)
                     | Inr result' \<Rightarrow>
                         (Inr (result',
                               \<lparr>m_name = name tm, m_seq = seq tm,
                                m_prompt = prompt, m_completion = outputs\<rparr>), w4)))))"

text \<open>
  The inner \<^verbatim>\<open>for todo_method in progress\<close> loop, with the variables \<^verbatim>\<open>result\<close> and
  \<^verbatim>\<open>mediate\<close> that it updates. In independent mode the isolation source is
  \<^verbatim>\<open>task["code"]\<close> (line 85), in incremental mode the variable \<^verbatim>\<open>result\<close> (line 115).
\<close>

fun todo_loop ::
  "('w, 'g) env \<Rightarrow> bool \<Rightarrow> task \<Rightarrow> todo_method list \<Rightarrow> string \<Rightarrow> mediate_entry list
     \<Rightarrow> ('w, 'g) world \<Rightarrow> (error + string \<times> mediate_entry list) \<times> ('w, 'g) world" where
  "todo_loop env incr t [] result mediate w = (Inr (result, mediate), w)"
| "todo_loop env incr t (tm # tms) result mediate w =
     (case todo_step env t (if incr then result else code t) result tm w of
        (Inl e, w') \<Rightarrow> (Inl e, w')
      | (Inr (result', new_mediate), w') \<Rightarrow>
          todo_loop env incr t tms result' (mediate @ [new_mediate]) w')"

text \<open>Lines 69-76.\<close>

definition holistic ::
  "('w, 'g) env \<Rightarrow> task \<Rightarrow> ('w, 'g) world \<Rightarrow> (error + sample) \<times> ('w, 'g) world" where
  "holistic env t w =
     (case call_query env (code t) (code_context t) w of
        (Inl e, w') \<Rightarrow> (Inl e, w')
      | (Inr (prompt, outputs), w') \<Rightarrow>
          (Inr \<lparr>s_task_id = task_id t, s_target = target t, s_prompt = Some prompt,
                s_completion = outputs, s_mediate = None\<rparr>, w'))"

text \<open>Lines 77-102.\<close>

definition independent ::
  "('w, 'g) env \<Rightarrow> task \<Rightarrow> ('w, 'g) world \<Rightarrow> (error + sample) \<times> ('w, 'g) world" where
  "independent env t w =
     (let result = code t; w1 = emit (Locate result) w in
      case get_todo_methods env result of
        Inl e \<Rightarrow> (Inl e, w1)
      | Inr todo_methods \<Rightarrow>
          (case todo_loop env False t todo_methods result [] w1 of
             (Inl e, w2) \<Rightarrow> (Inl e, w2)
           | (Inr (result', mediate), w2) \<Rightarrow>
               (Inr \<lparr>s_task_id = task_id t, s_target = target t, s_prompt = None,
                     s_completion = result', s_mediate = Some mediate\<rparr>, w2)))"

text \<open>Lines 103-132.\<close>

definition incremental ::
  "('w, 'g) env \<Rightarrow> args \<Rightarrow> task \<Rightarrow> ('w, 'g) world \<Rightarrow> (error + sample) \<times> ('w, 'g) world" where
  "incremental env a t w =
     (let result = code t; w1 = emit (Locate result) w in
      case get_todo_methods env result of
        Inl e \<Rightarrow> (Inl e, w1)
      | Inr todo_methods \<Rightarrow>
          (case apply_order (randbelow env) (incremental_mode a) todo_methods (rng w1) of
             (Inl e, g') \<Rightarrow> (Inl e, w1\<lparr>rng := g'\<rparr>)
           | (Inr (todo_list, progress), g') \<Rightarrow>
               (case todo_loop env True t progress result [] (w1\<lparr>rng := g'\<rparr>) of
                  (Inl e, w2) \<Rightarrow> (Inl e, w2)
                | (Inr (result', mediate), w2) \<Rightarrow>
                    (Inr \<lparr>s_task_id = task_id t, s_target = target t, s_prompt = None,
                          s_completion = result', s_mediate = Some mediate\<rparr>, w2))))"

text \<open>The dispatch on \<^verbatim>\<open>args.mode\<close>, lines 69, 77 and 103.\<close>

definition process_pair ::
  "('w, 'g) env \<Rightarrow> args \<Rightarrow> task \<Rightarrow> ('w, 'g) world \<Rightarrow> (error + sample) \<times> ('w, 'g) world" where
  "process_pair env a t w =
     (case mode a of
        Holistic \<Rightarrow> holistic env t w
      | Independent \<Rightarrow> independent env t w
      | Incremental \<Rightarrow> incremental env a t w)"

text \<open>
  Line 68: \<^verbatim>\<open>itertools.islice(itertools.product(tasks, range(args.num_sample)), len(samples), None)\<close>.
\<close>

definition all_pairs :: "task list \<Rightarrow> int \<Rightarrow> (task \<times> nat) list" where
  "all_pairs tasks n = List.product tasks [0..<nat n]"

definition remaining_pairs :: "task list \<Rightarrow> int \<Rightarrow> nat \<Rightarrow> (task \<times> nat) list" where
  "remaining_pairs tasks n k = drop k (all_pairs tasks n)"

text \<open>
  The outer loop, lines 68-133, over the pairs still to come, with the variable
  \<^verbatim>\<open>samples\<close>. An exception leaves the loop and the function: the result is the
  exception, if any, the list \<^verbatim>\<open>samples\<close> as it was then, and the world.
\<close>

fun pair_loop ::
  "('w, 'g) env \<Rightarrow> args \<Rightarrow> (task \<times> nat) list \<Rightarrow> sample list \<Rightarrow> ('w, 'g) world
     \<Rightarrow> error option \<times> sample list \<times> ('w, 'g) world" where
  "pair_loop env a [] samples w = (None, samples, w)"
| "pair_loop env a ((t, i) # ps) samples w =
     (case process_pair env a t (emit (Next_pair t i) w) of
        (Inl e, w') \<Rightarrow> (Some e, samples, w')
      | (Inr s, w') \<Rightarrow>
          pair_loop env a ps (samples @ [s]) (write_jsonl (samples @ [s]) w'))"

text \<open>Lines 66-133.\<close>

definition inference ::
  "('w, 'g) env \<Rightarrow> args \<Rightarrow> ('w, 'g) world \<Rightarrow> error option \<times> sample list \<times> ('w, 'g) world" where
  "inference env a w =
     (let tasks = data_file w;
          samples = load_samples w
      in pair_loop env a (remaining_pairs tasks (num_sample a) (length samples)) samples w)"

subsection \<open>Reading the log\<close>

text \<open>
  The arguments of the calls of each kind, in the order of the log.
\<close>

definition locates :: "event list \<Rightarrow> string list" where
  "locates tr = concat (map (\<lambda>e. case e of Locate s \<Rightarrow> [s] | _ \<Rightarrow> []) tr)"

definition isolates :: "event list \<Rightarrow> (string \<times> string \<times> int) list" where
  "isolates tr = concat (map (\<lambda>e. case e of Isolate b n q \<Rightarrow> [(b, n, q)] | _ \<Rightarrow> []) tr)"

definition queries :: "event list \<Rightarrow> (string \<times> string) list" where
  "queries tr = concat (map (\<lambda>e. case e of Query c x \<Rightarrow> [(c, x)] | _ \<Rightarrow> []) tr)"

definition answers :: "event list \<Rightarrow> (string \<times> string) list" where
  "answers tr = concat (map (\<lambda>e. case e of Answer p out \<Rightarrow> [(p, out)] | _ \<Rightarrow> []) tr)"

definition extracts :: "event list \<Rightarrow> string list" where
  "extracts tr = concat (map (\<lambda>e. case e of Extract out \<Rightarrow> [out] | _ \<Rightarrow> []) tr)"

definition splices :: "event list \<Rightarrow> (string \<times> string \<times> string \<times> int) list" where
  "splices tr = concat (map (\<lambda>e. case e of Splice b g n q \<Rightarrow> [(b, g, n, q)] | _ \<Rightarrow> []) tr)"

definition writes :: "event list \<Rightarrow> sample list list" where
  "writes tr = concat (map (\<lambda>e. case e of Write xs \<Rightarrow> [xs] | _ \<Rightarrow> []) tr)"

definition next_pairs :: "event list \<Rightarrow> (task \<times> nat) list" where
  "next_pairs tr = concat (map (\<lambda>e. case e of Next_pair t i \<Rightarrow> [(t, i)] | _ \<Rightarrow> []) tr)"

text \<open>
  The events logged between two worlds, the second reached from the first.
\<close>

definition since :: "('w, 'g) world \<Rightarrow> ('w, 'g) world \<Rightarrow> event list" where
  "since w w' = drop (length (trace w)) (trace w')"

text \<open>
  \<open>chained env b cs\<close> follows a sequence of calls of \<^verbatim>\<open>replace_method\<close>: the first is
  applied to the buffer \<open>b\<close>, each later one to what the one before returned. The
  result is the buffer returned by the last call, or \<open>None\<close> if some call was applied
  to another source or raised.
\<close>

fun chained ::
  "('w, 'g) env \<Rightarrow> string \<Rightarrow> (string \<times> string \<times> string \<times> int) list \<Rightarrow> string option" where
  "chained env b [] = Some b"
| "chained env b ((src, g, n, q) # cs) =
     (if src = b
      then (case replace_method env src g n q of Inr b' \<Rightarrow> chained env b' cs | Inl e \<Rightarrow> None)
      else None)"

abbreviation key :: "todo_method \<Rightarrow> string \<times> int" where
  "key tm \<equiv> (name tm, seq tm)"

text \<open>
  The behaviour described for incremental mode in the design notes: one location per
  iteration, each against the buffer that the iteration then isolates from.
\<close>

definition relocated_every_iteration :: "event list \<Rightarrow> bool" where
  "relocated_every_iteration tr = (locates tr = map fst (isolates tr))"

subsection \<open>A small environment\<close>

text \<open>
  A source is a string, its stubs are the characters \<open>f\<close> and \<open>b\<close>, named by
  themselves. Isolating a stub blanks the other stubs, splicing replaces the stub by
  the generated text, and the model answers \<open>X\<close> as long as its budget of calls lasts.
  The generator draws \<open>g mod n\<close> and counts its draws.
\<close>

definition ex_stub :: "char \<Rightarrow> bool" where
  "ex_stub c = (c = CHR ''f'' \<or> c = CHR ''b'')"

definition ex_env :: "(nat, nat) env" where
  "ex_env =
     \<lparr>get_todo_methods = (\<lambda>src. Inr (map (\<lambda>c. \<lparr>name = [c], seq = 0\<rparr>) (filter ex_stub src))),
      retain_todo_method = (\<lambda>src n q.
         if n \<in> set (map (\<lambda>c. [c]) (filter ex_stub src))
         then Inr (map (\<lambda>c. if ex_stub c \<and> [c] \<noteq> n then CHR ''_'' else c) src)
         else Inl StubNotFoundError),
      replace_method = (\<lambda>src g n q.
         if n \<in> set (map (\<lambda>c. [c]) (filter ex_stub src))
         then Inr (concat (map (\<lambda>c. if [c] = n then g else [c]) src))
         else Inl StubNotFoundError),
      extract_code = (\<lambda>out. if out = [] then Inl ExtractionError else Inr out),
      query = (\<lambda>m c x. if m = 0 then (Inl ModelClientError, 0) else (Inr (x @ c, ''X''), m - 1)),
      randbelow = (\<lambda>g n. (g mod n, Suc g))\<rparr>"

definition ex_task :: task where
  "ex_task = \<lparr>task_id = ''T'', code = ''fb'', code_context = ''C'', target = ''t''\<rparr>"

definition ex_done :: task where
  "ex_done = \<lparr>task_id = ''D'', code = ''XY'', code_context = ''C'', target = ''d''\<rparr>"

definition ex_args :: "mode \<Rightarrow> incremental_mode \<Rightarrow> args" where
  "ex_args md im = \<lparr>mode = md, incremental_mode = im, num_sample = 2\<rparr>"

definition ex_stubs :: "todo_method list" where
  "ex_stubs = [\<lparr>name = ''f'', seq = 0\<rparr>, \<lparr>name = ''b'', seq = 0\<rparr>]"

definition ex_world :: "nat \<Rightarrow> (nat, nat) world" where
  "ex_world budget =
     \<lparr>data_file = [ex_task, ex_done], output_file = None, model = budget, rng = 0, trace = []\<rparr>"

section \<open>Properties\<close>

subsection \<open>The log and the inner loop\<close>

lemmas proj_defs = locates_def isolates_def queries_def answers_def extracts_def splices_def
  writes_def next_pairs_def

lemma proj_Nil [simp]:
  "locates [] = []" "isolates [] = []" "queries [] = []" "answers [] = []"
  "extracts [] = []" "splices [] = []" "writes [] = []" "next_pairs [] = []"
  by (simp_all add: proj_defs)

lemma proj_append [simp]:
  "locates (xs @ ys) = locates xs @ locates ys"
  "isolates (xs @ ys) = isolates xs @ isolates ys"
  "queries (xs @ ys) = queries xs @ queries ys"
  "answers (xs @ ys) = answers xs @ answers ys"
  "extracts (xs @ ys) = extracts xs @ extracts ys"
  "splices (xs @ ys) = splices xs @ splices ys"
  "writes (xs @ ys) = writes xs @ writes ys"
  "next_pairs (xs @ ys) = next_pairs xs @ next_pairs ys"
  by (simp_all add: proj_defs)

lemma proj_Cons [simp]:
  "locates (e # es) = (case e of Locate s \<Rightarrow> [s] | _ \<Rightarrow> []) @ locates es"
  "isolates (e # es) = (case e of Isolate b n q \<Rightarrow> [(b, n, q)] | _ \<Rightarrow> []) @ isolates es"
  "queries (e # es) = (case e of Query c x \<Rightarrow> [(c, x)] | _ \<Rightarrow> []) @ queries es"
  "answers (e # es) = (case e of Answer p out \<Rightarrow> [(p, out)] | _ \<Rightarrow> []) @ answers es"
  "extracts (e # es) = (case e of Extract out \<Rightarrow> [out] | _ \<Rightarrow> []) @ extracts es"
  "splices (e # es) = (case e of Splice b g n q \<Rightarrow> [(b, g, n, q)] | _ \<Rightarrow> []) @ splices es"
  "writes (e # es) = (case e of Write xs \<Rightarrow> [xs] | _ \<Rightarrow> []) @ writes es"
  "next_pairs (e # es) = (case e of Next_pair t i \<Rightarrow> [(t, i)] | _ \<Rightarrow> []) @ next_pairs es"
  by (simp_all add: proj_defs)

lemma since_append: "trace w' = trace w @ tr \<Longrightarrow> since w w' = tr"
  by (simp add: since_def)

lemma since_self [simp]: "since w w = []"
  by (simp add: since_def)

lemma emit_fields [simp]:
  "trace (emit e w) = trace w @ [e]"
  "output_file (emit e w) = output_file w"
  "data_file (emit e w) = data_file w"
  "model (emit e w) = model w"
  "rng (emit e w) = rng w"
  by (simp_all add: emit_def)

lemma write_jsonl_fields [simp]:
  "trace (write_jsonl xs w) = trace w @ [Write xs]"
  "output_file (write_jsonl xs w) = Some xs"
  "data_file (write_jsonl xs w) = data_file w"
  "model (write_jsonl xs w) = model w"
  "rng (write_jsonl xs w) = rng w"
  by (simp_all add: write_jsonl_def)

lemma call_query_Inl:
  assumes "call_query env c x w = (Inl e, w')"
  shows "trace w' = trace w @ [Query c x]" "output_file w' = output_file w"
    "data_file w' = data_file w" "rng w' = rng w"
  using assms by (auto simp: call_query_def Let_def split: prod.splits sum.splits)

lemma call_query_Inr:
  assumes "call_query env c x w = (Inr (p, out), w')"
  shows "trace w' = trace w @ [Query c x, Answer p out]" "output_file w' = output_file w"
    "data_file w' = data_file w" "rng w' = rng w"
  using assms by (auto simp: call_query_def Let_def split: prod.splits sum.splits)

lemma todo_step_Inr:
  assumes "todo_step env t b result tm w = (Inr (result', me), w')"
  shows "\<exists>source prompt outputs generated.
           retain_todo_method env b (name tm) (seq tm) = Inr source \<and>
           extract_code env outputs = Inr generated \<and>
           replace_method env result generated (name tm) (seq tm) = Inr result' \<and>
           me = \<lparr>m_name = name tm, m_seq = seq tm, m_prompt = prompt, m_completion = outputs\<rparr> \<and>
           trace w' = trace w @ [Isolate b (name tm) (seq tm), Query source (code_context t),
             Answer prompt outputs, Extract outputs, Splice result generated (name tm) (seq tm)]"
    and "output_file w' = output_file w" and "data_file w' = data_file w" and "rng w' = rng w"
  using assms
  by (auto simp: todo_step_def Let_def split: prod.splits sum.splits dest: call_query_Inr)

lemma todo_step_any:
  assumes "todo_step env t b result tm w = (r, w')"
  shows "\<exists>tr. trace w' = trace w @ Isolate b (name tm) (seq tm) # tr \<and> locates tr = [] \<and>
           writes tr = [] \<and> next_pairs tr = [] \<and> isolates tr = []"
    and "output_file w' = output_file w" and "data_file w' = data_file w" and "rng w' = rng w"
  using assms
  by (auto simp: todo_step_def Let_def split: prod.splits sum.splits
      dest: call_query_Inr call_query_Inl)

lemma todo_loop_any:
  assumes "todo_loop env incr t tms result mediate w = (r, w')"
  shows "(\<exists>tr. trace w' = trace w @ tr \<and> locates tr = [] \<and> writes tr = [] \<and> next_pairs tr = [])
    \<and> output_file w' = output_file w \<and> data_file w' = data_file w \<and> rng w' = rng w"
  using assms
proof (induction tms arbitrary: result mediate w)
  case Nil
  then show ?case by simp
next
  case (Cons tm tms)
  obtain r1 w1 where s: "todo_step env t (if incr then result else code t) result tm w = (r1, w1)"
    by (cases "todo_step env t (if incr then result else code t) result tm w")
  note f = todo_step_any [OF s]
  show ?case
  proof (cases r1)
    case (Inl e)
    with Cons.prems s have "w' = w1" by simp
    with f show ?thesis by auto
  next
    case (Inr p)
    obtain result1 me where p: "p = (result1, me)" by (cases p)
    with Cons.prems s Inr
    have "todo_loop env incr t tms result1 (mediate @ [me]) w1 = (r, w')" by simp
    from Cons.IH [OF this] f show ?thesis by auto
  qed
qed

lemma todo_loop_Inr:
  assumes "todo_loop env incr t tms result mediate w = (Inr (result', mediate'), w')"
  shows "\<exists>tr new. trace w' = trace w @ tr \<and> mediate' = mediate @ new
     \<and> map snd (isolates tr) = map key tms
     \<and> map fst (isolates tr) = (if incr then map fst (splices tr) else replicate (length tms) (code t))
     \<and> map (snd \<circ> snd) (splices tr) = map key tms
     \<and> chained env result (splices tr) = Some result'
     \<and> map (\<lambda>m. (m_name m, m_seq m)) new = map key tms
     \<and> map (\<lambda>m. (m_prompt m, m_completion m)) new = answers tr
     \<and> extracts tr = map snd (answers tr)
     \<and> map (\<lambda>(b, g, n, q). Inr g) (splices tr) = map (extract_code env) (extracts tr)
     \<and> map (\<lambda>(b, n, q). retain_todo_method env b n q) (isolates tr) = map (\<lambda>(c, x). Inr c) (queries tr)
     \<and> map snd (queries tr) = replicate (length tms) (code_context t)"
  using assms
proof (induction tms arbitrary: result mediate w)
  case Nil
  then show ?case by simp
next
  case (Cons tm tms)
  obtain r1 w1 where s: "todo_step env t (if incr then result else code t) result tm w = (r1, w1)"
    by (cases "todo_step env t (if incr then result else code t) result tm w")
  with Cons.prems obtain result1 me where r1: "r1 = Inr (result1, me)"
    by (cases r1) auto
  from todo_step_Inr(1) [OF s [unfolded r1]]
  obtain source prompt outputs generated where
    a: "retain_todo_method env (if incr then result else code t) (name tm) (seq tm) = Inr source"
      "extract_code env outputs = Inr generated"
      "replace_method env result generated (name tm) (seq tm) = Inr result1"
      "me = \<lparr>m_name = name tm, m_seq = seq tm, m_prompt = prompt, m_completion = outputs\<rparr>"
      "trace w1 = trace w @ [Isolate (if incr then result else code t) (name tm) (seq tm),
         Query source (code_context t), Answer prompt outputs, Extract outputs,
         Splice result generated (name tm) (seq tm)]"
    by blast
  from Cons.prems s r1
  have "todo_loop env incr t tms result1 (mediate @ [me]) w1 = (Inr (result', mediate'), w')"
    by simp
  from Cons.IH [OF this] obtain tr new where
    b: "trace w' = trace w1 @ tr" "mediate' = (mediate @ [me]) @ new"
      "map snd (isolates tr) = map key tms"
      "map fst (isolates tr) = (if incr then map fst (splices tr) else replicate (length tms) (code t))"
      "map (snd \<circ> snd) (splices tr) = map key tms"
      "chained env result1 (splices tr) = Some result'"
      "map (\<lambda>m. (m_name m, m_seq m)) new = map key tms"
      "map (\<lambda>m. (m_prompt m, m_completion m)) new = answers tr"
      "extracts tr = map snd (answers tr)"
      "map (\<lambda>(b, g, n, q). Inr g) (splices tr) = map (extract_code env) (extracts tr)"
      "map (\<lambda>(b, n, q). retain_todo_method env b n q) (isolates tr) = map (\<lambda>(c, x). Inr c) (queries tr)"
      "map snd (queries tr) = replicate (length tms) (code_context t)"
    by blast
  let ?tr = "[Isolate (if incr then result else code t) (name tm) (seq tm),
         Query source (code_context t), Answer prompt outputs, Extract outputs,
         Splice result generated (name tm) (seq tm)] @ tr"
  have "trace w' = trace w @ ?tr" using a(5) b(1) by simp
  moreover have "mediate' = mediate @ (me # new)" using b(2) by simp
  moreover have "map snd (isolates ?tr) = map key (tm # tms)" using b(3) by simp
  moreover have "map fst (isolates ?tr) =
      (if incr then map fst (splices ?tr) else replicate (length (tm # tms)) (code t))"
    using b(4) by simp
  moreover have "map (snd \<circ> snd) (splices ?tr) = map key (tm # tms)" using b(5) by simp
  moreover have "chained env result (splices ?tr) = Some result'" using b(6) a(3) by simp
  moreover have "map (\<lambda>m. (m_name m, m_seq m)) (me # new) = map key (tm # tms)"
    using b(7) a(4) by simp
  moreover have "map (\<lambda>m. (m_prompt m, m_completion m)) (me # new) = answers ?tr"
    using b(8) a(4) by simp
  moreover have "extracts ?tr = map snd (answers ?tr)" using b(9) by simp
  moreover have "map (\<lambda>(b, g, n, q). Inr g) (splices ?tr) = map (extract_code env) (extracts ?tr)"
    using b(10) a(2) by simp
  moreover have "map (\<lambda>(b, n, q). retain_todo_method env b n q) (isolates ?tr)
      = map (\<lambda>(c, x). Inr c) (queries ?tr)"
    using b(11) a(1) by simp
  moreover have "map snd (queries ?tr) = replicate (length (tm # tms)) (code_context t)"
    using b(12) by simp
  ultimately show ?case by blast
qed

lemma pairs_from_columns:
  assumes "map fst xs = replicate (length ys) c" and "map snd xs = map f ys"
  shows "xs = map (\<lambda>y. (c, f y)) ys"
  using assms
proof (induction xs arbitrary: ys)
  case Nil
  then show ?case by simp
next
  case (Cons x xs)
  then obtain y ys' where ys: "ys = y # ys'" by (cases ys) auto
  with Cons.prems have "map fst xs = replicate (length ys') c" "map snd xs = map f ys'"
    "fst x = c" "snd x = f y"
    by simp_all
  with Cons.IH [of ys'] ys show ?case by (simp add: prod_eq_iff)
qed

subsection \<open>The ordering of the stubs\<close>

lemma shuffle_loop_mset:
  "shuffle_loop rb i xs g = (Inr ys, g') \<Longrightarrow> mset ys = mset xs"
proof (induction i arbitrary: xs g)
  case 0
  then show ?case by simp
next
  case (Suc i)
  obtain j g1 where d: "rb g (Suc (Suc i)) = (j, g1)" by (cases "rb g (Suc (Suc i))")
  with Suc.prems have ok: "j < length xs" "Suc i < length xs"
    by (auto split: if_splits)
  with Suc.prems d
  have "shuffle_loop rb i (xs[Suc i := xs ! j, j := xs ! Suc i]) g1 = (Inr ys, g')" by simp
  from Suc.IH [OF this] ok show ?case by (simp add: mset_swap)
qed

lemma apply_order_Seq: "apply_order rb Seq xs g = (Inr (xs, xs), g)"
  by (simp add: apply_order_def)

lemma apply_order_Rev: "apply_order rb Rev xs g = (Inr (xs, rev xs), g)"
  by (simp add: apply_order_def)

lemma apply_order_Rand:
  assumes "apply_order rb Rand xs g = (Inr (after, it), g')"
  shows "it = after" "mset after = mset xs"
  using assms
  by (auto simp: apply_order_def shuffle_def split: prod.splits sum.splits dest: shuffle_loop_mset)

lemma apply_order_mset:
  assumes "apply_order rb im xs g = (Inr (after, it), g')"
  shows "mset it = mset xs"
  using assms apply_order_Rand [of rb xs g after it g']
  by (cases im) (auto simp: apply_order_Seq apply_order_Rev)

subsection \<open>One pair\<close>

lemma holistic_any:
  assumes "holistic env t w = (r, w')"
  shows "(\<exists>tr. trace w' = trace w @ Query (code t) (code_context t) # tr \<and> locates tr = []
            \<and> writes tr = [] \<and> next_pairs tr = [])
    \<and> output_file w' = output_file w \<and> data_file w' = data_file w"
  using assms
  by (auto simp: holistic_def split: prod.splits sum.splits dest: call_query_Inl call_query_Inr)

lemma independent_any:
  assumes "independent env t w = (r, w')"
  shows "(\<exists>tr. trace w' = trace w @ Locate (code t) # tr \<and> locates tr = []
            \<and> writes tr = [] \<and> next_pairs tr = [])
    \<and> output_file w' = output_file w \<and> data_file w' = data_file w"
  using assms
  by (auto simp: independent_def Let_def split: prod.splits sum.splits dest!: todo_loop_any)

lemma incremental_any:
  assumes "incremental env a t w = (r, w')"
  shows "(\<exists>tr. trace w' = trace w @ Locate (code t) # tr \<and> locates tr = []
            \<and> writes tr = [] \<and> next_pairs tr = [])
    \<and> output_file w' = output_file w \<and> data_file w' = data_file w"
  using assms
  by (auto simp: incremental_def Let_def split: prod.splits sum.splits dest!: todo_loop_any)

lemma process_pair_any:
  assumes "process_pair env a t w = (r, w')"
  shows "(\<exists>tr. trace w' = trace w @ tr \<and> writes tr = [] \<and> next_pairs tr = [])
    \<and> output_file w' = output_file w \<and> data_file w' = data_file w"
proof (cases "mode a")
  case Holistic
  with assms have "holistic env t w = (r, w')" by (simp add: process_pair_def)
  from holistic_any [OF this] show ?thesis by auto
next
  case Independent
  with assms have "independent env t w = (r, w')" by (simp add: process_pair_def)
  from independent_any [OF this] show ?thesis by auto
next
  case Incremental
  with assms have "incremental env a t w = (r, w')" by (simp add: process_pair_def)
  from incremental_any [OF this] show ?thesis by auto
qed

lemma process_pair_task_id:
  assumes "process_pair env a t w = (Inr s, w')"
  shows "s_task_id s = task_id t" "s_target s = target t"
  using assms
  by (cases "mode a";
      auto simp: process_pair_def holistic_def independent_def incremental_def Let_def
        split: prod.splits sum.splits)+

subsection \<open>The outer loop\<close>


lemma pair_loop_shape:
  assumes "pair_loop env a ps samples w = (err, samples', w')"
  shows "\<exists>new tr. samples' = samples @ new \<and> trace w' = trace w @ tr
     \<and> data_file w' = data_file w
     \<and> output_file w' = (if new = [] then output_file w else Some samples')
     \<and> length new \<le> length ps
     \<and> (err = None \<longleftrightarrow> length new = length ps)
     \<and> next_pairs tr = take (if err = None then length new else Suc (length new)) ps
     \<and> map s_task_id new = map (task_id \<circ> fst) (take (length new) ps)
     \<and> writes tr = map (\<lambda>n. samples @ take (Suc n) new) [0..<length new]"
  using assms
proof (induction ps arbitrary: samples w)
  case Nil
  then show ?case by simp
next
  case (Cons p ps)
  obtain t i where p: "p = (t, i)" by (cases p)
  obtain r w1 where s: "process_pair env a t (emit (Next_pair t i) w) = (r, w1)"
    by (cases "process_pair env a t (emit (Next_pair t i) w)")
  from process_pair_any [OF s] obtain tr1 where
    f: "trace w1 = trace w @ Next_pair t i # tr1" "writes tr1 = []" "next_pairs tr1 = []"
      "output_file w1 = output_file w" "data_file w1 = data_file w"
    by auto
  show ?case
  proof (cases r)
    case (Inl e)
    with Cons.prems p s have "err = Some e" "samples' = samples" "w' = w1" by simp_all
    with f p show ?thesis
      by (intro exI [of _ "[]"] exI [of _ "Next_pair t i # tr1"]) simp
  next
    case (Inr smp)
    with Cons.prems p s
    have l: "pair_loop env a ps (samples @ [smp]) (write_jsonl (samples @ [smp]) w1)
               = (err, samples', w')"
      by simp
    from Cons.IH [OF l] obtain new tr where
      h: "samples' = (samples @ [smp]) @ new"
        "trace w' = trace (write_jsonl (samples @ [smp]) w1) @ tr"
        "data_file w' = data_file (write_jsonl (samples @ [smp]) w1)"
        "output_file w' = (if new = [] then output_file (write_jsonl (samples @ [smp]) w1)
                           else Some samples')"
        "length new \<le> length ps"
        "(err = None) = (length new = length ps)"
        "next_pairs tr = take (if err = None then length new else Suc (length new)) ps"
        "map s_task_id new = map (task_id \<circ> fst) (take (length new) ps)"
        "writes tr = map (\<lambda>n. (samples @ [smp]) @ take (Suc n) new) [0..<length new]"
      by blast
    let ?new = "smp # new"
    let ?tr = "Next_pair t i # tr1 @ Write (samples @ [smp]) # tr"
    have 1: "samples' = samples @ ?new" using h(1) by simp
    have 2: "trace w' = trace w @ ?tr" using h(2) f(1) by simp
    have 3: "data_file w' = data_file w" using h(3) f(5) by simp
    have 4: "output_file w' = (if ?new = [] then output_file w else Some samples')"
      using h(4) h(1) by simp
    have 5: "length ?new \<le> length (p # ps)" using h(5) by simp
    have 6: "(err = None) = (length ?new = length (p # ps))" using h(6) by simp
    have 7: "next_pairs ?tr = take (if err = None then length ?new else Suc (length ?new)) (p # ps)"
      using h(7) f(3) p by simp
    have 8: "map s_task_id ?new = map (task_id \<circ> fst) (take (length ?new) (p # ps))"
      using h(8) p process_pair_task_id(1) [OF s [unfolded Inr]] by simp
    have "[0..<length ?new] = 0 # map Suc [0..<length new]"
      by (simp add: upt_conv_Cons map_Suc_upt del: upt_Suc)
    then have 9: "writes ?tr = map (\<lambda>n. samples @ take (Suc n) ?new) [0..<length ?new]"
      using h(9) f(2) by (simp add: comp_def del: upt_Suc)
    from 1 2 3 4 5 6 7 8 9 show ?thesis by blast
  qed
qed



lemma length_all_pairs: "length (all_pairs tasks n) = length tasks * nat n"
  by (simp add: all_pairs_def)

lemma length_remaining_pairs:
  "length (remaining_pairs tasks n k) = length tasks * nat n - k"
  by (simp add: remaining_pairs_def length_all_pairs)

lemma remaining_pairs_nth:
  assumes "k + j < length tasks * nat n"
  shows "remaining_pairs tasks n k ! j = (tasks ! ((k + j) div nat n), (k + j) mod nat n)"
proof -
  from assms have pos: "0 < nat n" by (cases "nat n") auto
  have "remaining_pairs tasks n k ! j = List.product tasks [0..<nat n] ! (k + j)"
    using assms by (simp add: remaining_pairs_def all_pairs_def)
  also have "\<dots> = (tasks ! ((k + j) div nat n), [0..<nat n] ! ((k + j) mod nat n))"
    using assms by (simp add: product_nth)
  also have "[0..<nat n] ! ((k + j) mod nat n) = (k + j) mod nat n"
    using pos by simp
  finally show ?thesis .
qed

lemma inference_shape:
  assumes "inference env a w = (err, samples, w')"
  shows "\<exists>new tr. samples = load_samples w @ new \<and> trace w' = trace w @ tr
     \<and> data_file w' = data_file w
     \<and> output_file w' = (if new = [] then output_file w else Some samples)
     \<and> load_samples w' = samples
     \<and> length new \<le> length (remaining_pairs (data_file w) (num_sample a) (length (load_samples w)))
     \<and> (err = None \<longleftrightarrow>
          length new = length (remaining_pairs (data_file w) (num_sample a) (length (load_samples w))))
     \<and> next_pairs tr = take (if err = None then length new else Suc (length new))
          (remaining_pairs (data_file w) (num_sample a) (length (load_samples w)))
     \<and> map s_task_id new = map (task_id \<circ> fst)
          (take (length new) (remaining_pairs (data_file w) (num_sample a) (length (load_samples w))))
     \<and> writes tr = map (\<lambda>n. load_samples w @ take (Suc n) new) [0..<length new]"
proof -
  let ?ps = "remaining_pairs (data_file w) (num_sample a) (length (load_samples w))"
  from assms have "pair_loop env a ?ps (load_samples w) w = (err, samples, w')"
    by (simp add: inference_def Let_def)
  from pair_loop_shape [OF this] obtain new tr where
    h: "samples = load_samples w @ new" "trace w' = trace w @ tr"
      "data_file w' = data_file w"
      "output_file w' = (if new = [] then output_file w else Some samples)"
      "length new \<le> length ?ps"
      "(err = None) = (length new = length ?ps)"
      "next_pairs tr = take (if err = None then length new else Suc (length new)) ?ps"
      "map s_task_id new = map (task_id \<circ> fst) (take (length new) ?ps)"
      "writes tr = map (\<lambda>n. load_samples w @ take (Suc n) new) [0..<length new]"
    by blast
  from h(1,4) have "load_samples w' = samples"
    by (cases "new = []") (simp_all add: load_samples_def)
  with h show ?thesis by blast
qed

subsection \<open>Runs of the small environment\<close>

lemmas ex_defs = ex_env_def ex_task_def ex_done_def ex_stubs_def ex_args_def ex_world_def ex_stub_def
  inference_def process_pair_def holistic_def independent_def incremental_def todo_step_def
  call_query_def apply_order_def shuffle_def remaining_pairs_def all_pairs_def
  load_samples_def emit_def write_jsonl_def Let_def

lemma ex_upt [simp]: "[0..<2] = [0, Suc 0]"
  by (simp add: numeral_2_eq_2)

lemma ex_full_run:
  "\<exists>samples w'. inference ex_env (ex_args Incremental Rand) (ex_world 5) = (None, samples, w')"
  by (simp add: ex_defs)


section \<open>The claims\<close>

subsection \<open>C1: where incremental mode locates the stubs\<close>

text \<open>
  C1 as stated: in incremental mode the stubs are located again on every iteration,
  against the running buffer as the splices have left it. On the source \<open>fb\<close> the
  loop runs twice, the second time on the buffer \<open>Xb\<close>, and \<^verbatim>\<open>get_todo_methods\<close> has
  been called once, on \<open>fb\<close>: the statement fails.
\<close>

theorem incremental_relocation_counterexample:
  "\<not> relocated_every_iteration
       (trace (snd (incremental ex_env (ex_args Incremental Seq) ex_task (ex_world 5))))"
  by (simp add: relocated_every_iteration_def ex_defs)

text \<open>
  C1, amended: processing a pair in incremental mode calls \<^verbatim>\<open>get_todo_methods\<close>
  exactly once, as its first call and on the task's original code (line 107), whatever
  the outcome of the pair; nothing is located after a splice.
\<close>

theorem incremental_locates_once:
  assumes "incremental env a t w = (r, w')"
  shows "\<exists>tr. since w w' = Locate (code t) # tr \<and> locates tr = []"
proof -
  from incremental_any [OF assms] obtain tr where
    "trace w' = trace w @ Locate (code t) # tr" "locates tr = []"
    by auto
  then show ?thesis by (auto dest: since_append)
qed

text \<open>
  C1, amended, on the task \<open>fb\<close> of the small environment.
\<close>

theorem incremental_locates_once_witness:
  "\<exists>tr. since (ex_world 5) (snd (incremental ex_env (ex_args Incremental Seq) ex_task (ex_world 5)))
          = Locate (code ex_task) # tr \<and> locates tr = []"
  using incremental_locates_once [OF prod.collapse [symmetric]] .

subsection \<open>C2: the effects of the ordering step\<close>

text \<open>
  C2 as stated: for each of \<open>seq\<close>, \<open>rev\<close> and \<open>rand\<close> the ordering step leaves its
  input list as it was and has no other effect. With \<open>rand\<close> on the two stubs of
  \<open>fb\<close> the list object holds the stubs in the other order afterwards, and the
  generator has moved on: the statement fails.
\<close>

theorem ordering_purity_counterexample:
  "fst (apply_order (randbelow ex_env) Rand ex_stubs (0::nat)) = Inr (rev ex_stubs, rev ex_stubs)
   \<and> rev ex_stubs \<noteq> ex_stubs
   \<and> snd (apply_order (randbelow ex_env) Rand ex_stubs (0::nat)) \<noteq> 0"
  by (simp add: ex_defs)

text \<open>
  C2, amended: when the ordering step returns, then for \<open>seq\<close> and \<open>rev\<close> the list
  returned by the locator and the state of the generator are what they were, and
  for every mode, \<open>rand\<close> included, the list holds the same elements as before,
  each as often; \<open>rand\<close> permutes the list in place.
\<close>

theorem ordering_effects:
  assumes "apply_order rb im xs g = (Inr (after, it), g')"
  shows "(im \<noteq> Rand \<longrightarrow> after = xs \<and> g' = g) \<and> mset after = mset xs"
  using assms apply_order_Rand(2) [of rb xs g after it g']
  by (cases im) (auto simp: apply_order_Seq apply_order_Rev)

text \<open>
  C2, amended, for \<open>rev\<close> on the two stubs of \<open>fb\<close>.
\<close>

theorem ordering_effects_witness:
  "apply_order (randbelow ex_env) Rev ex_stubs (0::nat) = (Inr (ex_stubs, rev ex_stubs), 0)
   \<and> Rev \<noteq> Rand \<and> mset ex_stubs = mset ex_stubs"
proof -
  have h: "apply_order (randbelow ex_env) Rev ex_stubs (0::nat) = (Inr (ex_stubs, rev ex_stubs), 0)"
    by (simp add: apply_order_def)
  from ordering_effects [OF h] h show ?thesis by simp
qed

subsection \<open>C3: the order of the pairs\<close>

text \<open>
  C3: the pairs that a run takes from the outer iterator are an initial segment of
  the Cartesian product of the tasks with \<^verbatim>\<open>range(num_sample)\<close> after its first \<open>k\<close>
  pairs, \<open>k\<close> the number of Samples found in the output file; pair \<open>j\<close> of that
  remainder is task \<open>(k + j) div N\<close> with sample index \<open>(k + j) mod N\<close>, which is the
  task-major, sample-minor order. A run that ends without an exception has taken all
  of them, has appended one Sample per pair, in that order and with that pair's
  \<^verbatim>\<open>task_id\<close>, and the output file read back is the list in memory; starting from
  at most \<open>T * N\<close> Samples, and so from none, it ends with exactly \<open>T * N\<close>.
\<close>

theorem cartesian_product_order:
  assumes "inference env a w = (err, samples, w')"
  shows "\<exists>new m.
       samples = load_samples w @ new
     \<and> next_pairs (since w w')
         = take m (remaining_pairs (data_file w) (num_sample a) (length (load_samples w)))
     \<and> (\<forall>j. length (load_samples w) + j < length (data_file w) * nat (num_sample a) \<longrightarrow>
          remaining_pairs (data_file w) (num_sample a) (length (load_samples w)) ! j
            = (data_file w ! ((length (load_samples w) + j) div nat (num_sample a)),
               (length (load_samples w) + j) mod nat (num_sample a)))
     \<and> (err = None \<longrightarrow>
          next_pairs (since w w')
            = remaining_pairs (data_file w) (num_sample a) (length (load_samples w))
        \<and> length new = length (data_file w) * nat (num_sample a) - length (load_samples w)
        \<and> map s_task_id new = map (task_id \<circ> fst)
            (remaining_pairs (data_file w) (num_sample a) (length (load_samples w)))
        \<and> load_samples w' = samples
        \<and> (length (load_samples w) \<le> length (data_file w) * nat (num_sample a) \<longrightarrow>
             length (load_samples w') = length (data_file w) * nat (num_sample a)))"
proof -
  let ?ps = "remaining_pairs (data_file w) (num_sample a) (length (load_samples w))"
  from inference_shape [OF assms] obtain new tr where
    h: "samples = load_samples w @ new" "trace w' = trace w @ tr"
      "load_samples w' = samples" "(err = None) = (length new = length ?ps)"
      "next_pairs tr = take (if err = None then length new else Suc (length new)) ?ps"
      "map s_task_id new = map (task_id \<circ> fst) (take (length new) ?ps)"
    by blast
  have s: "since w w' = tr" using h(2) by (rule since_append)
  have 1: "next_pairs (since w w')
      = take (if err = None then length new else Suc (length new)) ?ps"
    using h(5) s by simp
  have 2: "\<forall>j. length (load_samples w) + j < length (data_file w) * nat (num_sample a) \<longrightarrow>
      ?ps ! j = (data_file w ! ((length (load_samples w) + j) div nat (num_sample a)),
                 (length (load_samples w) + j) mod nat (num_sample a))"
    by (simp add: remaining_pairs_nth)
  have 3: "err = None \<longrightarrow>
          next_pairs (since w w') = ?ps
        \<and> length new = length (data_file w) * nat (num_sample a) - length (load_samples w)
        \<and> map s_task_id new = map (task_id \<circ> fst) ?ps
        \<and> load_samples w' = samples
        \<and> (length (load_samples w) \<le> length (data_file w) * nat (num_sample a) \<longrightarrow>
             length (load_samples w') = length (data_file w) * nat (num_sample a))"
  proof
    assume e: "err = None"
    with h(4) have l: "length new = length ?ps" by simp
    then have l': "length new = length (data_file w) * nat (num_sample a) - length (load_samples w)"
      by (simp add: length_remaining_pairs)
    from 1 e l have "next_pairs (since w w') = ?ps" by simp
    moreover from h(6) l have "map s_task_id new = map (task_id \<circ> fst) ?ps" by simp
    moreover from h(1,3) l'
    have "length (load_samples w) \<le> length (data_file w) * nat (num_sample a) \<longrightarrow>
             length (load_samples w') = length (data_file w) * nat (num_sample a)"
      by simp
    ultimately show "next_pairs (since w w') = ?ps
        \<and> length new = length (data_file w) * nat (num_sample a) - length (load_samples w)
        \<and> map s_task_id new = map (task_id \<circ> fst) ?ps
        \<and> load_samples w' = samples
        \<and> (length (load_samples w) \<le> length (data_file w) * nat (num_sample a) \<longrightarrow>
             length (load_samples w') = length (data_file w) * nat (num_sample a))"
      using l' h(3) by blast
  qed
  from h(1) 1 2 3 show ?thesis by blast
qed

text \<open>
  C3 on two tasks with two samples each, from an absent output file.
\<close>

theorem cartesian_product_order_witness:
  "\<exists>samples w'.
      inference ex_env (ex_args Incremental Rand) (ex_world 5) = (None, samples, w')
    \<and> next_pairs (since (ex_world 5) w')
        = [(ex_task, 0), (ex_task, 1), (ex_done, 0), (ex_done, 1)]
    \<and> map s_task_id samples = [''T'', ''T'', ''D'', ''D'']
    \<and> length (load_samples w') = 4"
proof -
  from ex_full_run obtain samples w' where
    h: "inference ex_env (ex_args Incremental Rand) (ex_world 5) = (None, samples, w')"
    by blast
  have r: "remaining_pairs (data_file (ex_world 5)) (num_sample (ex_args Incremental Rand))
         (length (load_samples (ex_world 5)))
      = [(ex_task, 0), (ex_task, 1), (ex_done, 0), (ex_done, 1)]"
    by (simp add: remaining_pairs_def all_pairs_def load_samples_def ex_world_def ex_args_def)
  have l: "load_samples (ex_world 5) = []"
    by (simp add: load_samples_def ex_world_def)
  have d: "length (data_file (ex_world 5)) * nat (num_sample (ex_args Incremental Rand)) = 4"
    by (simp add: ex_world_def ex_args_def)
  from cartesian_product_order [OF h] obtain new where
    "samples = load_samples (ex_world 5) @ new"
    "next_pairs (since (ex_world 5) w')
       = remaining_pairs (data_file (ex_world 5)) (num_sample (ex_args Incremental Rand))
          (length (load_samples (ex_world 5)))"
    "map s_task_id new = map (task_id \<circ> fst)
       (remaining_pairs (data_file (ex_world 5)) (num_sample (ex_args Incremental Rand))
          (length (load_samples (ex_world 5))))"
    "length (load_samples (ex_world 5))
        \<le> length (data_file (ex_world 5)) * nat (num_sample (ex_args Incremental Rand))
      \<longrightarrow> length (load_samples w')
        = length (data_file (ex_world 5)) * nat (num_sample (ex_args Incremental Rand))"
    by blast
  with h r l d show ?thesis by (simp add: ex_task_def ex_done_def)
qed

subsection \<open>C4: the checkpoint after each pair\<close>



subsection \<open>C5: independent mode\<close>

text \<open>
  C5: a pair completed in independent mode has located the stubs once, first and on
  the task's original code; it has isolated each stub in the locator's order, every
  time from the original code; its splices are for the same stubs in the same order,
  each with the text that \<^verbatim>\<open>extract_code\<close> returned for that stub's model output; the
  first splice is applied to the original code, each later one to the result of the
  one before, and the Sample's \<^verbatim>\<open>completion\<close> is the result of the last.
\<close>

theorem independent_uses_original_source:
  assumes "independent env t w = (Inr s, w')"
  shows "\<exists>tms tr.
       get_todo_methods env (code t) = Inr tms
     \<and> since w w' = Locate (code t) # tr
     \<and> locates tr = []
     \<and> isolates tr = map (\<lambda>tm. (code t, name tm, seq tm)) tms
     \<and> map (snd \<circ> snd) (splices tr) = map (\<lambda>tm. (name tm, seq tm)) tms
     \<and> map (\<lambda>(b, g, n, q). Inr g) (splices tr) = map (extract_code env) (map snd (answers tr))
     \<and> chained env (code t) (splices tr) = Some (s_completion s)"
proof -
  from assms obtain tms where g: "get_todo_methods env (code t) = Inr tms"
    by (cases "get_todo_methods env (code t)") (auto simp: independent_def Let_def)
  with assms obtain result mediate where
    l: "todo_loop env False t tms (code t) [] (emit (Locate (code t)) w) = (Inr (result, mediate), w')"
    and c: "s_completion s = result"
    by (auto simp: independent_def Let_def split: prod.splits sum.splits)
  from todo_loop_Inr [OF l] obtain tr where
    h: "trace w' = trace (emit (Locate (code t)) w) @ tr"
      "map snd (isolates tr) = map key tms"
      "map fst (isolates tr) = replicate (length tms) (code t)"
      "map (snd \<circ> snd) (splices tr) = map key tms"
      "chained env (code t) (splices tr) = Some result"
      "extracts tr = map snd (answers tr)"
      "map (\<lambda>(b, g, n, q). Inr g) (splices tr) = map (extract_code env) (extracts tr)"
    by auto
  from todo_loop_any [OF l] h(1) have q: "locates tr = []" by auto
  have "since w w' = Locate (code t) # tr"
    using h(1) by (intro since_append) simp
  moreover have "isolates tr = map (\<lambda>tm. (code t, name tm, seq tm)) tms"
    using h(3,2) by (rule pairs_from_columns)
  ultimately show ?thesis using g q h(4,5,6,7) c by auto
qed

text \<open>
  C5 on the task \<open>fb\<close>.
\<close>

theorem independent_uses_original_source_witness:
  "\<exists>s w' tr.
      independent ex_env ex_task (ex_world 5) = (Inr s, w')
    \<and> since (ex_world 5) w' = Locate ''fb'' # tr
    \<and> isolates tr = [(''fb'', ''f'', 0), (''fb'', ''b'', 0)]
    \<and> chained ex_env ''fb'' (splices tr) = Some (s_completion s)"
proof -
  have "\<exists>s w'. independent ex_env ex_task (ex_world 5) = (Inr s, w')"
    by (simp add: ex_defs)
  then obtain s w' where h: "independent ex_env ex_task (ex_world 5) = (Inr s, w')"
    by blast
  have g: "get_todo_methods ex_env (code ex_task) = Inr ex_stubs" "code ex_task = ''fb''"
    by (simp_all add: ex_defs)
  from independent_uses_original_source [OF h] g obtain tr where
    "since (ex_world 5) w' = Locate ''fb'' # tr"
    "isolates tr = map (\<lambda>tm. (''fb'', name tm, seq tm)) ex_stubs"
    "chained ex_env ''fb'' (splices tr) = Some (s_completion s)"
    by auto
  with h show ?thesis by (auto simp: ex_stubs_def)
qed

subsection \<open>C6: incremental mode\<close>

text \<open>
  C6: a pair completed in incremental mode has processed the stubs that the locator
  found, in the locator's order for \<open>seq\<close>, in the reverse of it for \<open>rev\<close>, and in
  any case (so for \<open>rand\<close>) in an order holding each of these stubs once. Every stub
  is isolated from the very buffer that its splice is then applied to, and the
  splices are chained from the original code to the Sample's \<^verbatim>\<open>completion\<close>: the
  isolation of a stub reads the buffer with all earlier generated bodies spliced in.
\<close>

theorem incremental_order_and_context:
  assumes "incremental env a t w = (Inr s, w')"
  shows "\<exists>tms order tr.
       get_todo_methods env (code t) = Inr tms
     \<and> (incremental_mode a = Seq \<longrightarrow> order = tms)
     \<and> (incremental_mode a = Rev \<longrightarrow> order = rev tms)
     \<and> mset order = mset tms
     \<and> since w w' = Locate (code t) # tr
     \<and> map snd (isolates tr) = map (\<lambda>tm. (name tm, seq tm)) order
     \<and> map (snd \<circ> snd) (splices tr) = map (\<lambda>tm. (name tm, seq tm)) order
     \<and> map fst (isolates tr) = map fst (splices tr)
     \<and> chained env (code t) (splices tr) = Some (s_completion s)"
proof -
  let ?w1 = "emit (Locate (code t)) w"
  from assms obtain tms where g: "get_todo_methods env (code t) = Inr tms"
    by (cases "get_todo_methods env (code t)") (auto simp: incremental_def Let_def)
  with assms obtain after order g' where
    o: "apply_order (randbelow env) (incremental_mode a) tms (rng ?w1) = (Inr (after, order), g')"
    by (auto simp: incremental_def Let_def split: prod.splits sum.splits)
  with assms g obtain result mediate where
    l: "todo_loop env True t order (code t) [] (?w1\<lparr>rng := g'\<rparr>) = (Inr (result, mediate), w')"
    and c: "s_completion s = result"
    by (auto simp: incremental_def Let_def split: prod.splits sum.splits)
  from todo_loop_Inr [OF l] obtain tr where
    h: "trace w' = trace (?w1\<lparr>rng := g'\<rparr>) @ tr"
      "map snd (isolates tr) = map key order"
      "map fst (isolates tr) = map fst (splices tr)"
      "map (snd \<circ> snd) (splices tr) = map key order"
      "chained env (code t) (splices tr) = Some result"
    by auto
  have "since w w' = Locate (code t) # tr"
    using h(1) by (intro since_append) simp
  moreover have "incremental_mode a = Seq \<longrightarrow> order = tms"
    using o by (auto simp: apply_order_Seq)
  moreover have "incremental_mode a = Rev \<longrightarrow> order = rev tms"
    using o by (auto simp: apply_order_Rev)
  moreover have "mset order = mset tms"
    using o by (rule apply_order_mset)
  ultimately show ?thesis using g h(2,3,4,5) c by auto
qed

text \<open>
  C6 for \<open>rev\<close> on the task \<open>fb\<close>: \<open>b\<close> is processed before \<open>f\<close>.
\<close>

theorem incremental_order_and_context_witness:
  "\<exists>s w' tr.
      incremental ex_env (ex_args Incremental Rev) ex_task (ex_world 5) = (Inr s, w')
    \<and> since (ex_world 5) w' = Locate ''fb'' # tr
    \<and> map snd (isolates tr) = [(''b'', 0), (''f'', 0)]
    \<and> map fst (isolates tr) = map fst (splices tr)
    \<and> chained ex_env ''fb'' (splices tr) = Some (s_completion s)"
proof -
  have "\<exists>s w'. incremental ex_env (ex_args Incremental Rev) ex_task (ex_world 5) = (Inr s, w')"
    by (simp add: ex_defs)
  then obtain s w' where
    h: "incremental ex_env (ex_args Incremental Rev) ex_task (ex_world 5) = (Inr s, w')"
    by blast
  have g: "get_todo_methods ex_env (code ex_task) = Inr ex_stubs" "code ex_task = ''fb''"
    "incremental_mode (ex_args Incremental Rev) = Rev"
    by (simp_all add: ex_defs)
  from incremental_order_and_context [OF h] g obtain tr where
    "since (ex_world 5) w' = Locate ''fb'' # tr"
    "map snd (isolates tr) = map (\<lambda>tm. (name tm, seq tm)) (rev ex_stubs)"
    "map fst (isolates tr) = map fst (splices tr)"
    "chained ex_env ''fb'' (splices tr) = Some (s_completion s)"
    by auto
  with h show ?thesis by (auto simp: ex_stubs_def)
qed

subsection \<open>C7: an exception aborts the run, a restart resumes at the failed pair\<close>



subsection \<open>C8: the entries of mediate\<close>

text \<open>
  C8: a Sample produced in independent or incremental mode has a \<^verbatim>\<open>mediate\<close> list with
  as many entries as the locator found stubs in the task's code; the \<^verbatim>\<open>(name, seq)\<close>
  of the entries are those of the stubs, each once, in the order in which the stubs
  were isolated; and the \<^verbatim>\<open>(prompt, completion)\<close> of the entries are, in order, what
  the model calls of the pair returned.
\<close>

theorem mediate_one_entry_per_stub:
  assumes "process_pair env a t w = (Inr s, w')" and "mode a \<noteq> Holistic"
  shows "\<exists>tms mediate.
       get_todo_methods env (code t) = Inr tms
     \<and> s_mediate s = Some mediate
     \<and> length mediate = length tms
     \<and> mset (map (\<lambda>m. (m_name m, m_seq m)) mediate) = mset (map (\<lambda>tm. (name tm, seq tm)) tms)
     \<and> map (\<lambda>m. (m_name m, m_seq m)) mediate = map snd (isolates (since w w'))
     \<and> map (\<lambda>m. (m_prompt m, m_completion m)) mediate = answers (since w w')"
proof (cases "mode a")
  case Holistic
  with assms(2) show ?thesis by simp
next
  case Independent
  let ?w1 = "emit (Locate (code t)) w"
  from assms(1) Independent have i: "independent env t w = (Inr s, w')"
    by (simp add: process_pair_def)
  then obtain tms where g: "get_todo_methods env (code t) = Inr tms"
    by (cases "get_todo_methods env (code t)") (auto simp: independent_def Let_def)
  with i obtain result mediate where
    l: "todo_loop env False t tms (code t) [] ?w1 = (Inr (result, mediate), w')"
    and c: "s_mediate s = Some mediate"
    by (auto simp: independent_def Let_def split: prod.splits sum.splits)
  from todo_loop_Inr [OF l] obtain tr where
    h: "trace w' = trace ?w1 @ tr"
      "map snd (isolates tr) = map key tms"
      "map (\<lambda>m. (m_name m, m_seq m)) mediate = map key tms"
      "map (\<lambda>m. (m_prompt m, m_completion m)) mediate = answers tr"
    by auto
  have s: "since w w' = Locate (code t) # tr"
    using h(1) by (intro since_append) simp
  have n: "length mediate = length tms"
    using h(3) by (rule map_eq_imp_length_eq)
  have e: "mset (map (\<lambda>m. (m_name m, m_seq m)) mediate) = mset (map key tms)"
    using h(3) by (rule arg_cong)
  have p: "map (\<lambda>m. (m_name m, m_seq m)) mediate = map snd (isolates (since w w'))"
    using h(2,3) s by simp
  have q: "map (\<lambda>m. (m_prompt m, m_completion m)) mediate = answers (since w w')"
    using h(4) s by simp
  from g c n e p q show ?thesis by blast
next
  case Incremental
  let ?w1 = "emit (Locate (code t)) w"
  from assms(1) Incremental have i: "incremental env a t w = (Inr s, w')"
    by (simp add: process_pair_def)
  then obtain tms where g: "get_todo_methods env (code t) = Inr tms"
    by (cases "get_todo_methods env (code t)") (auto simp: incremental_def Let_def)
  with i obtain after order g' where
    o: "apply_order (randbelow env) (incremental_mode a) tms (rng ?w1) = (Inr (after, order), g')"
    by (auto simp: incremental_def Let_def split: prod.splits sum.splits)
  with i g obtain result mediate where
    l: "todo_loop env True t order (code t) [] (?w1\<lparr>rng := g'\<rparr>) = (Inr (result, mediate), w')"
    and c: "s_mediate s = Some mediate"
    by (auto simp: incremental_def Let_def split: prod.splits sum.splits)
  from todo_loop_Inr [OF l] obtain tr where
    h: "trace w' = trace (?w1\<lparr>rng := g'\<rparr>) @ tr"
      "map snd (isolates tr) = map key order"
      "map (\<lambda>m. (m_name m, m_seq m)) mediate = map key order"
      "map (\<lambda>m. (m_prompt m, m_completion m)) mediate = answers tr"
    by auto
  have s: "since w w' = Locate (code t) # tr"
    using h(1) by (intro since_append) simp
  have m: "mset order = mset tms" using o by (rule apply_order_mset)
  have "length mediate = length order"
    using h(3) by (rule map_eq_imp_length_eq)
  also have "\<dots> = length tms" using m by (rule mset_eq_length)
  finally have n: "length mediate = length tms" .
  have "mset (map key order) = mset (map key tms)"
    using m by (metis mset_map)
  then have e: "mset (map (\<lambda>m. (m_name m, m_seq m)) mediate) = mset (map key tms)"
    using h(3) by (simp only:)
  have p: "map (\<lambda>m. (m_name m, m_seq m)) mediate = map snd (isolates (since w w'))"
    using h(2,3) s by simp
  have q: "map (\<lambda>m. (m_prompt m, m_completion m)) mediate = answers (since w w')"
    using h(4) s by simp
  from g c n e p q show ?thesis by blast
qed

text \<open>
  C8 for \<open>rand\<close> on the task \<open>fb\<close>.
\<close>

theorem mediate_one_entry_per_stub_witness:
  "\<exists>s w' mediate.
      process_pair ex_env (ex_args Incremental Rand) ex_task (ex_world 5) = (Inr s, w')
    \<and> mode (ex_args Incremental Rand) \<noteq> Holistic
    \<and> s_mediate s = Some mediate
    \<and> length mediate = 2
    \<and> map (\<lambda>m. (m_prompt m, m_completion m)) mediate = answers (since (ex_world 5) w')"
proof -
  have "\<exists>s w'. process_pair ex_env (ex_args Incremental Rand) ex_task (ex_world 5) = (Inr s, w')"
    by (simp add: ex_defs)
  then obtain s w' where
    h: "process_pair ex_env (ex_args Incremental Rand) ex_task (ex_world 5) = (Inr s, w')"
    by blast
  have m: "mode (ex_args Incremental Rand) \<noteq> Holistic"
    by (simp add: ex_args_def)
  have g: "get_todo_methods ex_env (code ex_task) = Inr ex_stubs"
    by (simp add: ex_defs)
  from mediate_one_entry_per_stub [OF h m] g obtain mediate where
    "s_mediate s = Some mediate" "length mediate = length ex_stubs"
    "map (\<lambda>m. (m_prompt m, m_completion m)) mediate = answers (since (ex_world 5) w')"
    by auto
  with h m show ?thesis by (auto simp: ex_stubs_def)
qed

subsection \<open>C9: resuming a completed run\<close>

text \<open>
  C9: when a run has ended without an exception, running again from the world it
  left ends at once with the same list of Samples and the same world: the output file
  and the log are what they were, so no Sample was added and no call was made.
\<close>

theorem resume_idempotent:
  assumes "inference env a w = (None, samples, w')"
  shows "inference env a w' = (None, samples, w')"
proof -
  let ?ps = "remaining_pairs (data_file w) (num_sample a) (length (load_samples w))"
  from inference_shape [OF assms] obtain new where
    h: "samples = load_samples w @ new" "data_file w' = data_file w"
      "load_samples w' = samples" "length new = length ?ps"
    by auto
  have "length (data_file w) * nat (num_sample a) \<le> length samples"
    using h(1,4) by (simp add: length_remaining_pairs)
  then have "remaining_pairs (data_file w') (num_sample a) (length (load_samples w')) = []"
    using h(2,3) by (simp add: remaining_pairs_def length_all_pairs)
  then show ?thesis using h(3) by (simp add: inference_def)
qed

text \<open>
  C9 on two tasks with two samples each.
\<close>

theorem resume_idempotent_witness:
  "\<exists>samples w'.
      inference ex_env (ex_args Incremental Rand) (ex_world 5) = (None, samples, w')
    \<and> inference ex_env (ex_args Incremental Rand) w' = (None, samples, w')"
proof -
  from ex_full_run obtain samples w' where
    h: "inference ex_env (ex_args Incremental Rand) (ex_world 5) = (None, samples, w')"
    by blast
  from resume_idempotent [OF h] h show ?thesis by blast
qed

subsection \<open>C10: a task without stubs\<close>

text \<open>
  C10: when the locator finds no stub in the task's code, independent and incremental
  mode return the Sample with the task's code as \<^verbatim>\<open>completion\<close> and the empty
  \<^verbatim>\<open>mediate\<close>, and the only call made is the location: no model call.
\<close>

theorem no_stubs_no_model_call:
  assumes "get_todo_methods env (code t) = Inr []" and "mode a \<noteq> Holistic"
  shows "process_pair env a t w =
           (Inr \<lparr>s_task_id = task_id t, s_target = target t, s_prompt = None,
                 s_completion = code t, s_mediate = Some []\<rparr>,
            emit (Locate (code t)) w)
       \<and> queries (since w (emit (Locate (code t)) w)) = []"
proof -
  have "since w (emit (Locate (code t)) w) = [Locate (code t)]"
    by (intro since_append) simp
  then have q: "queries (since w (emit (Locate (code t)) w)) = []" by simp
  have "apply_order (randbelow env) (incremental_mode a) ([]::todo_method list) (rng w)
      = (Inr ([], []), rng w)"
    by (cases "incremental_mode a") (simp_all add: apply_order_def shuffle_def)
  with assms q show ?thesis
    by (cases "mode a") (simp_all add: process_pair_def independent_def incremental_def Let_def)
qed

text \<open>
  C10 on the task \<open>XY\<close>, with a model that has no budget left.
\<close>

theorem no_stubs_no_model_call_witness:
  "get_todo_methods ex_env (code ex_done) = Inr []
   \<and> mode (ex_args Independent Seq) \<noteq> Holistic
   \<and> process_pair ex_env (ex_args Independent Seq) ex_done (ex_world 0) =
       (Inr \<lparr>s_task_id = ''D'', s_target = ''d'', s_prompt = None,
             s_completion = ''XY'', s_mediate = Some []\<rparr>,
        emit (Locate ''XY'') (ex_world 0))"
proof -
  have g: "get_todo_methods ex_env (code ex_done) = Inr []"
    by (simp add: ex_defs)
  have m: "mode (ex_args Independent Seq) \<noteq> Holistic"
    by (simp add: ex_args_def)
  from no_stubs_no_model_call [OF g m, of "ex_world 0"] g m show ?thesis
    by (simp add: ex_done_def)
qed

end
